theory Spec2Isabelle
  imports Main
begin

section \<open>The batch job script of the sweep dispatcher\<close>

text \<open>
  The program is a PBS job script. After its \<open>#PBS\<close> directives (among them
  \<open>-l ncpus=64\<close>) it reads
  \<^verbatim>\<open>
  NNODES=$(cat $PBS_NODEFILE | uniq | wc -l)
  NCPUS=32
  JOBDIR=$PWD

  for i in $(seq 0 $(($NNODES-1))); do
      if [ $i -lt 1 ]
      then
          PARAMF="{1..32}"
      else
          PARAMF="{33..64}"
      fi
      pbsdsh -n $(( $NCPUS*$i )) -- \
      bash -l -c "\
      module use ...; module load dea; module load parallel;\
      echo $i:\
      cd $JOBDIR;\
      parallel --delay 5 --retries 3 --load 100%  --colsep ' ' python ..._raijin.py ::: $PARAMF"&
  done;
  wait;
  \<close>
  Shell integers are modelled as \<open>int\<close>, the node file as the list of its lines, a
  brace word \<open>{lo..hi}\<close> as the pair \<open>(lo, hi)\<close>. What one iteration starts is a record of
  the values the script puts on the command line: the index given to \<open>pbsdsh -n\<close>, the
  label echoed, the options of \<open>parallel\<close> and the words after \<open>:::\<close>.
\<close>

subsection \<open>Variables and the utilities of the first lines\<close>

definition uniq :: "string list \<Rightarrow> string list" where
  \<comment> \<open>\<open>uniq\<close> drops a line that repeats the line before it.\<close>
  "uniq ls = remdups_adj ls"

definition wc_l :: "string list \<Rightarrow> int" where
  "wc_l ls = int (length ls)"

definition NNODES :: "string list \<Rightarrow> int" where
  "NNODES nodefile = wc_l (uniq nodefile)"

definition NCPUS :: int where
  "NCPUS = 32"

definition seq :: "int \<Rightarrow> int \<Rightarrow> int list" where
  \<comment> \<open>\<open>seq a b\<close> prints \<open>a, a + 1, ..., b\<close> and nothing when \<open>b < a\<close>.\<close>
  "seq a b = [a..b]"

subsection \<open>The partition: \<open>PARAMF\<close>\<close>

definition PARAMF :: "int \<Rightarrow> int \<times> int" where
  "PARAMF i = (if i < 1 then (1, 32) else (33, 64))"

definition brace_expand :: "int \<times> int \<Rightarrow> int list" where
  \<comment> \<open>The inner shell expands the unquoted word \<open>{lo..hi}\<close>; it counts down when \<open>hi < lo\<close>.\<close>
  "brace_expand r = (case r of (lo, hi) \<Rightarrow> if lo \<le> hi then [lo..hi] else rev [hi..lo])"

subsection \<open>One loop iteration: the sub-dispatcher started on a node\<close>

record subdispatcher =
  pbsdsh_n :: int
  echo_i :: int
  delay :: nat
  retries :: nat
  load :: nat
  args :: "int list"

definition launch :: "int \<Rightarrow> subdispatcher" where
  "launch i = \<lparr>pbsdsh_n = NCPUS * i, echo_i = i, delay = 5, retries = 3, load = 100,
     args = brace_expand (PARAMF i)\<rparr>"

definition dispatch :: "int \<Rightarrow> subdispatcher list" where
  \<comment> \<open>The sub-dispatchers of the \<open>for\<close> loop, in the order of the loop.\<close>
  "dispatch nnodes = map launch (seq 0 (nnodes - 1))"

definition partitions :: "int \<Rightarrow> int list list" where
  \<comment> \<open>The parameter values handed to each sub-dispatcher after \<open>:::\<close>, node by node.\<close>
  "partitions nnodes = map args (dispatch nnodes)"

subsection \<open>The top-level shell: background children and \<open>wait\<close>\<close>

text \<open>
  Every iteration ends in \<open>&\<close>: the shell starts the command as a background child and
  goes on with status 0, whatever becomes of the child. The state of the shell is its
  table of background children, in the order they were started, and its last status \<open>$?\<close>.
\<close>

record shell =
  jobs :: "subdispatcher list"
  status :: int

definition background :: "subdispatcher \<Rightarrow> shell \<Rightarrow> shell" where
  "background c s = s\<lparr>jobs := jobs s @ [c], status := 0\<rparr>"

definition for_loop :: "int \<Rightarrow> shell \<Rightarrow> shell" where
  "for_loop nnodes s = foldl (\<lambda>s i. background (launch i) s) s (seq 0 (nnodes - 1))"

text \<open>
  The children end outside the shell. The environment is the list of their terminations
  as the shell observes them, each the index of the child in the job table and its exit
  status (127 for a command that could not be started). A child that never ends has no
  entry. \<open>wait\<close> without operands consumes terminations until no child of the table is
  left running, and gives back the terminations it did not need; \<open>None\<close> is a shell blocked
  for ever. Its own status is 0: the children's statuses are not looked at.
\<close>

fun wait :: "nat list \<Rightarrow> (nat \<times> int) list \<Rightarrow> (nat \<times> int) list option" where
  "wait [] evs = Some evs"
| "wait (p # ps) [] = None"
| "wait (p # ps) (e # evs) = wait (removeAll (fst e) (p # ps)) evs"

definition script :: "string list \<Rightarrow> (nat \<times> int) list \<Rightarrow> shell option" where
  "script nodefile evs =
     (let s = for_loop (NNODES nodefile) \<lparr>jobs = [], status = 0\<rparr> in
      case wait [0..<length (jobs s)] evs of
        None \<Rightarrow> None
      | Some rest \<Rightarrow> Some (s\<lparr>status := 0\<rparr>))"

definition exit_status :: "string list \<Rightarrow> (nat \<times> int) list \<Rightarrow> int option" where
  \<comment> \<open>The status of the job: that of the last command of the script, \<open>wait\<close>.\<close>
  "exit_status nodefile evs = map_option status (script nodefile evs)"

subsection \<open>The parallel-execution utility\<close>

text \<open>
  Modelled from the spec: the retry policy of the external parallel-execution utility that
  line 33 invokes (\<open>parallel --retries 3 ... ::: $PARAMF\<close>); its code is not part of the
  repository. Following section 4.1, a work unit that fails is tried again until the
  number of attempts reaches the retry budget, then it is reported as permanently failed;
  the units of one invocation are run independently of each other, one per parameter
  value. The budget is the value the script passes, \<open>retries\<close>. The behaviour of a work
  unit is given by the environment: \<open>ok k\<close> tells whether its \<open>k\<close>-th attempt succeeds.
\<close>

datatype unit_status = Success | PermanentFailure

fun retry :: "nat \<Rightarrow> nat \<Rightarrow> (nat \<Rightarrow> bool) \<Rightarrow> unit_status \<times> nat" where
  \<comment> \<open>Modelled from the spec: the retry loop of the utility, absent from the repository;
    \<open>retry left tried ok\<close> has \<open>left\<close> attempts of the budget left after \<open>tried\<close> failed ones.\<close>
  "retry 0 tried ok = (PermanentFailure, tried)"
| "retry (Suc left) tried ok =
     (if ok (Suc tried) then (Success, Suc tried) else retry left (Suc tried) ok)"

definition run_unit :: "subdispatcher \<Rightarrow> (nat \<Rightarrow> bool) \<Rightarrow> unit_status \<times> nat" where
  \<comment> \<open>Modelled from the spec: the utility's handling of one work unit, absent from the
    repository; the final status of the unit and the number of attempts made, under the
    budget \<open>--retries\<close> of the command line.\<close>
  "run_unit d ok = retry (retries d) 0 ok"

definition parallel :: "subdispatcher \<Rightarrow> (int \<Rightarrow> nat \<Rightarrow> bool) \<Rightarrow> (int \<times> unit_status \<times> nat) list" where
  \<comment> \<open>Modelled from the spec: the utility's run over its arguments, absent from the
    repository; one work unit per value after \<open>:::\<close>, each with its own report.\<close>
  "parallel d ok = map (\<lambda>v. (v, run_unit d (ok v))) (args d)"

subsection \<open>The properties the specification asks of a partition\<close>

definition contiguous :: "int list \<Rightarrow> bool" where
  "contiguous p \<longleftrightarrow> p \<noteq> [] \<and> p = [hd p..last p]"

definition exact_cover :: "int list list \<Rightarrow> int \<Rightarrow> bool" where
  \<comment> \<open>The union of the parts is \<open>[1..R]\<close> and no two parts share a value.\<close>
  "exact_cover ps R \<longleftrightarrow>
     (\<Union>p \<in> set ps. set p) = {1..R} \<and>
     (\<forall>i < length ps. \<forall>j < length ps. i \<noteq> j \<longrightarrow> set (ps ! i) \<inter> set (ps ! j) = {})"

definition valid_partition :: "int \<Rightarrow> int \<Rightarrow> bool" where
  "valid_partition M R \<longleftrightarrow>
     length (partitions M) = nat M \<and> (\<forall>p \<in> set (partitions M). contiguous p) \<and>
     exact_cover (partitions M) R"

section \<open>The loop and its ranges\<close>

subsection \<open>The sub-dispatchers started by the loop\<close>

lemma args_launch: "args (launch i) = (if i < 1 then [1..32] else [33..64])"
  by (simp add: launch_def PARAMF_def brace_expand_def)

lemma args_launch_0: "args (launch 0) = [1..32]"
  by (simp add: args_launch del: upto_rec_numeral)

lemma args_launch_rest: "map (\<lambda>i. args (launch i)) [1..k] = replicate (nat k) [33..64]"
proof -
  have "map (\<lambda>i. args (launch i)) [1..k] = map (\<lambda>i. [33..64]) [1..k]"
    by (rule map_cong) (simp_all add: args_launch)
  also have "\<dots> = replicate (length [1..k]) [33..64]"
    by (simp add: map_replicate_const)
  finally show ?thesis by simp
qed

lemma jobs_foldl_background:
  "jobs (foldl (\<lambda>s i. background (launch i) s) s xs) = jobs s @ map launch xs"
  by (induction xs arbitrary: s) (simp_all add: background_def)

lemma jobs_for_loop: "jobs (for_loop n s) = jobs s @ dispatch n"
  by (simp add: for_loop_def dispatch_def jobs_foldl_background)

lemma seq_nonpos: "M \<le> 0 \<Longrightarrow> seq 0 (M - 1) = []"
  by (simp add: seq_def)

lemma seq_pos: "1 \<le> M \<Longrightarrow> seq 0 (M - 1) = 0 # [1..M - 1]"
  by (simp add: seq_def upto_rec1)

lemma length_dispatch: "length (dispatch M) = nat M"
  by (simp add: dispatch_def seq_def)

lemma dispatch_1: "dispatch 1 = [launch 0]"
  by (simp add: dispatch_def seq_def)

lemma launch_in_dispatch: "0 \<le> i \<Longrightarrow> i < M \<Longrightarrow> launch i \<in> set (dispatch M)"
  by (simp add: dispatch_def seq_def)

lemma pbsdsh_n_dispatch_2: "map pbsdsh_n (dispatch 2) = [0, 32]"
  by (simp add: dispatch_def seq_def upto.simps launch_def NCPUS_def)

lemma retries_dispatch: "d \<in> set (dispatch M) \<Longrightarrow> retries d = 3"
  by (auto simp: dispatch_def launch_def)

subsection \<open>The ranges, node by node\<close>

lemma partitions_nonpos: "M \<le> 0 \<Longrightarrow> partitions M = []"
  by (simp add: partitions_def dispatch_def seq_nonpos)

lemma partitions_pos:
  assumes "1 \<le> M"
  shows "partitions M = [1..32] # replicate (nat (M - 1)) [33..64]"
proof -
  have "partitions M = map (\<lambda>i. args (launch i)) (0 # [1..M - 1])"
    using assms by (simp add: partitions_def dispatch_def seq_pos o_def)
  also have "\<dots> = args (launch 0) # map (\<lambda>i. args (launch i)) [1..M - 1]"
    by simp
  finally show ?thesis
    by (simp only: args_launch_0 args_launch_rest)
qed

lemma partitions_1: "partitions 1 = [[1..32]]"
  using partitions_pos [of 1] by (simp del: upto_rec_numeral)

lemma partitions_2: "partitions 2 = [[1..32], [33..64]]"
  using partitions_pos [of 2] by (simp del: upto_rec_numeral)

lemma partitions_3: "partitions 3 = [[1..32], [33..64], [33..64]]"
  by (simp add: partitions_pos numeral_2_eq_2 del: upto_rec_numeral)

lemma length_partitions: "length (partitions M) = nat M"
  by (simp add: partitions_def length_dispatch)

lemma nth_partitions_0: "1 \<le> M \<Longrightarrow> partitions M ! 0 = [1..32]"
  by (simp add: partitions_pos del: upto_rec_numeral)

lemma nth_partitions_rest:
  assumes "1 \<le> i" "i < nat M"
  shows "partitions M ! i = [33..64]"
proof -
  from assms have M: "1 \<le> M" by simp
  from assms obtain k where k: "i = Suc k" by (cases i) simp_all
  with assms have "k < nat (M - 1)" by simp
  with k show ?thesis by (simp add: partitions_pos [OF M] del: upto_rec_numeral)
qed

subsection \<open>How often a value is handed out\<close>

lemma count_list_distinct: "distinct xs \<Longrightarrow> count_list xs v = (if v \<in> set xs then 1 else 0)"
  by (induction xs) auto

lemma count_list_concat_replicate:
  "count_list (concat (replicate n q)) v = n * count_list q v"
  by (induction n) simp_all

lemma count_partitions_high:
  assumes "1 \<le> M" "v \<in> {33..64}"
  shows "count_list (concat (partitions M)) v = nat (M - 1)"
proof -
  have "count_list [1..32] v = 0"
    using assms(2) by (simp add: count_list_distinct del: upto_rec_numeral)
  moreover have "count_list [33..64] v = 1"
    using assms(2) by (simp add: count_list_distinct del: upto_rec_numeral)
  ultimately show ?thesis
    by (simp add: partitions_pos [OF assms(1)] count_list_concat_replicate del: upto_rec_numeral)
qed

subsection \<open>Contiguity and exact covers\<close>

lemma hd_upto_le: "lo \<le> hi \<Longrightarrow> hd [lo..hi] = lo"
  by (simp add: upto_rec1)

lemma last_upto_le: "lo \<le> hi \<Longrightarrow> last [lo..hi] = hi"
  by (simp add: upto_rec2)

lemma contiguous_upto: "lo \<le> hi \<Longrightarrow> contiguous [lo..hi]"
  by (simp add: contiguous_def hd_upto_le last_upto_le)

lemma contiguous_partitions: "p \<in> set (partitions M) \<Longrightarrow> contiguous p"
proof (cases "1 \<le> M")
  case True
  assume "p \<in> set (partitions M)"
  with True have "p = [1..32] \<or> p = [33..64]"
    by (auto simp: partitions_pos simp del: upto_rec_numeral)
  then show ?thesis
    by (auto simp: contiguous_upto simp del: upto_rec_numeral)
next
  case False
  assume "p \<in> set (partitions M)"
  with False show ?thesis by (simp add: partitions_nonpos)
qed

lemma parts_disjoint: "set [1..32] \<inter> set [33..64::int] = {}"
  by (auto simp del: upto_rec_numeral)

lemma parts_union: "set [1..32] \<union> set [33..64::int] = {1..64}"
  by (auto simp del: upto_rec_numeral)

lemma exact_cover_1: "1 \<le> R \<Longrightarrow> exact_cover [[1..32]] R \<longleftrightarrow> R = 32"
  by (simp add: exact_cover_def Icc_eq_Icc del: upto_rec_numeral)

lemma exact_cover_2: "1 \<le> R \<Longrightarrow> exact_cover [[1..32], [33..64]] R \<longleftrightarrow> R = 64"
proof -
  assume R: "1 \<le> R"
  have u: "(\<Union>p \<in> set [[1..32], [33..64::int]]. set p) = {1..64}"
    using parts_union by (simp del: upto_rec_numeral)
  have d: "\<forall>i < length [[1..32], [33..64::int]]. \<forall>j < length [[1..32], [33..64::int]].
      i \<noteq> j \<longrightarrow> set ([[1..32], [33..64]] ! i) \<inter> set ([[1..32], [33..64]] ! j) = {}"
    using parts_disjoint by (auto simp: less_Suc_eq Int_commute simp del: upto_rec_numeral)
  show ?thesis
    unfolding exact_cover_def u using d R by (simp add: Icc_eq_Icc del: upto_rec_numeral)
qed

lemma not_exact_cover_3:
  assumes "3 \<le> M"
  shows "\<not> exact_cover (partitions M) R"
proof
  assume c: "exact_cover (partitions M) R"
  have l: "1 < length (partitions M)" "2 < length (partitions M)"
    using assms by (simp_all add: length_partitions)
  have "partitions M ! 1 = [33..64]" "partitions M ! 2 = [33..64]"
    using assms by (simp_all add: nth_partitions_rest del: upto_rec_numeral)
  moreover from c l have "set (partitions M ! 1) \<inter> set (partitions M ! 2) = {}"
    unfolding exact_cover_def by (metis n_not_Suc_n numeral_2_eq_2 One_nat_def)
  ultimately show False
    by (simp del: upto_rec_numeral)
qed

lemma not_exact_cover_64:
  assumes "M \<noteq> 2"
  shows "\<not> exact_cover (partitions M) 64"
proof -
  consider "M \<le> 0" | "M = 1" | "3 \<le> M" using assms by linarith
  then show ?thesis
  proof cases
    case 1
    then show ?thesis by (simp add: partitions_nonpos exact_cover_def)
  next
    case 2
    then show ?thesis by (simp add: partitions_1 exact_cover_1 del: upto_rec_numeral)
  next
    case 3
    then show ?thesis by (rule not_exact_cover_3)
  qed
qed

lemma valid_partition_iff_cover: "valid_partition M R \<longleftrightarrow> exact_cover (partitions M) R"
  by (auto simp: valid_partition_def length_partitions contiguous_partitions)

section \<open>The script: waiting for the children\<close>

lemma wait_Some_iff: "wait ps evs \<noteq> None \<longleftrightarrow> set ps \<subseteq> fst ` set evs"
proof (induction ps evs rule: wait.induct)
  case (1 evs)
  then show ?case by simp
next
  case (2 p ps)
  then show ?case by simp
next
  case (3 p ps e evs)
  then show ?case by auto
qed

lemma wait_prefix:
  "wait ps evs = Some rest \<Longrightarrow> \<exists>pre. evs = pre @ rest \<and> set ps \<subseteq> fst ` set pre"
proof (induction ps evs rule: wait.induct)
  case (1 evs)
  then show ?case by simp
next
  case (2 p ps)
  then show ?case by simp
next
  case (3 p ps e evs)
  from "3.prems" have "wait (removeAll (fst e) (p # ps)) evs = Some rest"
    by (simp only: wait.simps)
  from "3.IH" [OF this] obtain pre
    where pre: "evs = pre @ rest" "set (removeAll (fst e) (p # ps)) \<subseteq> fst ` set pre"
    by blast
  from pre(2) have "set (p # ps) - {fst e} \<subseteq> fst ` set pre"
    by (simp only: set_removeAll)
  then have "set (p # ps) \<subseteq> fst ` set (e # pre)"
    by auto
  with pre(1) have "e # evs = (e # pre) @ rest \<and> set (p # ps) \<subseteq> fst ` set (e # pre)"
    by simp
  then show ?case by blast
qed

lemma script_eq:
  "script nodefile evs =
     (if {0..<nat (NNODES nodefile)} \<subseteq> fst ` set evs
      then Some \<lparr>jobs = dispatch (NNODES nodefile), status = 0\<rparr> else None)"
proof -
  let ?s = "for_loop (NNODES nodefile) \<lparr>jobs = [], status = 0\<rparr>"
  have j: "jobs ?s = dispatch (NNODES nodefile)"
    by (simp add: jobs_for_loop)
  have s: "?s\<lparr>status := 0\<rparr> = \<lparr>jobs = dispatch (NNODES nodefile), status = 0\<rparr>"
    using j by simp
  have w: "wait [0..<length (jobs ?s)] evs \<noteq> None \<longleftrightarrow>
      {0..<nat (NNODES nodefile)} \<subseteq> fst ` set evs"
    by (simp only: wait_Some_iff j length_dispatch set_upt)
  show ?thesis
  proof (cases "wait [0..<length (jobs ?s)] evs")
    case None
    with w show ?thesis by (simp add: script_def Let_def)
  next
    case (Some rest)
    with w s show ?thesis by (simp add: script_def Let_def)
  qed
qed

lemma script_Some:
  "script nodefile evs = Some s \<Longrightarrow> jobs s = dispatch (NNODES nodefile) \<and> status s = 0"
  by (auto simp: script_eq split: if_splits)

lemma NNODES_2: "NNODES [''r1'', ''r2''] = 2"
  by (simp add: NNODES_def uniq_def wc_l_def)

lemma NNODES_3: "NNODES [''r1'', ''r2'', ''r3''] = 3"
  by (simp add: NNODES_def uniq_def wc_l_def)

section \<open>The retry budget of a work unit\<close>

lemma retry_le: "snd (retry n k ok) \<le> k + n"
  by (induction n k ok rule: retry.induct) auto

lemma retry_fail_iff:
  "fst (retry n k ok) = PermanentFailure \<longleftrightarrow> (\<forall>j. k < j \<and> j \<le> k + n \<longrightarrow> \<not> ok j)"
proof (induction n k ok rule: retry.induct)
  case (1 tried ok)
  then show ?case by auto
next
  case (2 left tried ok)
  show ?case
  proof (cases "ok (Suc tried)")
    case True
    then show ?thesis by auto
  next
    case False
    have "(\<forall>j. tried < j \<and> j \<le> tried + Suc left \<longrightarrow> \<not> ok j) \<longleftrightarrow>
          (\<forall>j. Suc tried < j \<and> j \<le> Suc tried + left \<longrightarrow> \<not> ok j)"
      using False by (metis Suc_lessI Suc_lessD add_Suc add_Suc_right)
    with False 2 show ?thesis by simp
  qed
qed

lemma retry_3:
  "retry 3 0 ok =
     (if ok 1 then (Success, 1) else if ok 2 then (Success, 2)
      else if ok 3 then (Success, 3) else (PermanentFailure, 3))"
  by (simp add: numeral_3_eq_3 numeral_2_eq_2)

lemma run_unit_dispatch:
  "d \<in> set (dispatch M) \<Longrightarrow> run_unit d ok =
     (if ok 1 then (Success, 1) else if ok 2 then (Success, 2)
      else if ok 3 then (Success, 3) else (PermanentFailure, 3))"
  by (simp only: run_unit_def retries_dispatch retry_3)

lemma map_fst_parallel: "map fst (parallel d ok) = args d"
  by (simp add: parallel_def o_def)

lemma parallel_siblings:
  assumes "\<forall>u. u \<noteq> v \<longrightarrow> ok' u = ok u"
  shows "filter (\<lambda>r. fst r \<noteq> v) (parallel d ok') = filter (\<lambda>r. fst r \<noteq> v) (parallel d ok)"
proof -
  have "filter (\<lambda>r. fst r \<noteq> v) (map (\<lambda>u. (u, run_unit d (f u))) xs) =
      map (\<lambda>u. (u, run_unit d (f u))) (filter (\<lambda>u. u \<noteq> v) xs)" for f xs
    by (induction xs) simp_all
  moreover have "map (\<lambda>u. (u, run_unit d (ok' u))) (filter (\<lambda>u. u \<noteq> v) (args d)) =
      map (\<lambda>u. (u, run_unit d (ok u))) (filter (\<lambda>u. u \<noteq> v) (args d))"
    using assms by (intro map_cong) simp_all
  ultimately show ?thesis
    by (simp add: parallel_def)
qed

section \<open>The claims\<close>

text \<open>
  C1, as the script has it. The ranges do not depend on the number of worker slots or on
  a declared range size: node 0 has 1..32 and every further node 33..64. For positive
  \<open>M\<close> and \<open>R\<close> they are \<open>M\<close> contiguous ranges that cover \<open>[1..R]\<close> exactly once, no value
  left out and no two ranges overlapping, if and only if \<open>M = 2\<close> and \<open>R = 64\<close>, or \<open>M = 1\<close>
  and \<open>R = 32\<close>.
\<close>

theorem valid_partition_only_hardcoded:
  assumes "1 \<le> M" "1 \<le> R"
  shows "valid_partition M R \<longleftrightarrow> (M = 1 \<and> R = 32) \<or> (M = 2 \<and> R = 64)"
proof -
  consider "M = 1" | "M = 2" | "3 \<le> M" using assms(1) by linarith
  then show ?thesis
  proof cases
    case 1
    then show ?thesis
      using assms(2) by (simp add: valid_partition_iff_cover partitions_1 exact_cover_1 del: upto_rec_numeral)
  next
    case 2
    then show ?thesis
      using assms(2) by (simp add: valid_partition_iff_cover partitions_2 exact_cover_2 del: upto_rec_numeral)
  next
    case 3
    then show ?thesis
      by (simp add: valid_partition_iff_cover not_exact_cover_3)
  qed
qed

theorem valid_partition_only_hardcoded_witness:
  "(1::int) \<le> 2 \<and> (1::int) \<le> 64 \<and> valid_partition 2 64 \<and> \<not> valid_partition 2 63"
  using valid_partition_only_hardcoded [of 2 64] valid_partition_only_hardcoded [of 2 63]
  by simp

text \<open>
  C1 as written, for every valid \<open>(N, M, R)\<close>, fails on three nodes, where nodes 1 and 2
  share the range 33..64, and on one node with the range 1..64, where 33..64 is left out.
\<close>

theorem partition_overlaps_on_three_nodes:
  "partitions 3 = [[1..32], [33..64], [33..64]] \<and> \<not> valid_partition 3 64 \<and>
   partitions 1 = [[1..32]] \<and> \<not> valid_partition 1 64"
proof -
  have "partitions 3 = [[1..32], [33..64], [33..64]]"
    by (simp add: partitions_pos numeral_2_eq_2 del: upto_rec_numeral)
  moreover have "\<not> valid_partition 3 64"
    by (simp add: valid_partition_iff_cover not_exact_cover_3)
  moreover have "\<not> valid_partition 1 64"
    by (simp add: valid_partition_iff_cover partitions_1 exact_cover_1 del: upto_rec_numeral)
  ultimately show ?thesis
    by (simp add: partitions_1 del: upto_rec_numeral)
qed

text \<open>
  C2. With 64 worker slots on 2 nodes (32 per node, the value of \<open>NCPUS\<close>), the loop starts
  the sub-dispatcher of node 0 at slot 0 with the range 1..32 and that of node 1 at slot
  32 with the range 33..64; the two ranges are contiguous, disjoint, and their union is
  1..64.
\<close>

theorem two_nodes_ranges:
  "64 div 2 = NCPUS \<and> map pbsdsh_n (dispatch 2) = [0, 32] \<and>
   partitions 2 = [[1..32], [33..64]] \<and>
   contiguous (partitions 2 ! 0) \<and> contiguous (partitions 2 ! 1) \<and>
   set (partitions 2 ! 0) \<inter> set (partitions 2 ! 1) = {} \<and>
   set (partitions 2 ! 0) \<union> set (partitions 2 ! 1) = {1..64}"
  using parts_disjoint parts_union
  by (simp add: NCPUS_def pbsdsh_n_dispatch_2 partitions_2 contiguous_upto
      del: upto_rec_numeral)

text \<open>
  C3. For every work unit of every sub-dispatcher the script starts, the number of
  attempts is at most 3, the retry budget the script passes; the unit is marked
  permanently failed exactly when its three attempts all fail, and then 3 attempts were
  made; a unit that fails twice and succeeds on the third attempt is a success with
  exactly 3 attempts.
\<close>

theorem retries_bounded_by_three:
  assumes "d \<in> set (dispatch M)"
  shows "snd (run_unit d ok) \<le> 3 \<and>
    (\<forall>r \<in> set (parallel d oks). snd (snd r) \<le> 3) \<and>
    (fst (run_unit d ok) = PermanentFailure \<longleftrightarrow> \<not> ok 1 \<and> \<not> ok 2 \<and> \<not> ok 3) \<and>
    (fst (run_unit d ok) = PermanentFailure \<longrightarrow> snd (run_unit d ok) = 3) \<and>
    (\<not> ok 1 \<and> \<not> ok 2 \<and> ok 3 \<longrightarrow> run_unit d ok = (Success, 3))"
proof -
  have le: "snd (run_unit d f) \<le> 3" for f
    by (simp add: run_unit_dispatch [OF assms])
  have "\<forall>r \<in> set (parallel d oks). snd (snd r) \<le> 3"
    using le by (auto simp: parallel_def)
  with le [of ok] show ?thesis
    by (simp add: run_unit_dispatch [OF assms])
qed

theorem retries_bounded_by_three_witness:
  "launch 1 \<in> set (dispatch 2) \<and> run_unit (launch 1) (\<lambda>k. k = 3) = (Success, 3) \<and>
   run_unit (launch 1) (\<lambda>k. False) = (PermanentFailure, 3)"
proof -
  have h: "launch 1 \<in> set (dispatch 2)"
    by (simp add: launch_in_dispatch)
  have "run_unit (launch 1) (\<lambda>k. k = 3) = (Success, 3)"
    using retries_bounded_by_three [OF h, of "\<lambda>k. k = 3"] by simp
  moreover have "run_unit (launch 1) (\<lambda>k. False) = (PermanentFailure, 3)"
    using retries_bounded_by_three [OF h, of "\<lambda>k. False"] by (simp add: prod_eq_iff)
  ultimately show ?thesis
    using h by simp
qed

text \<open>
  C4, as the script has it. A work unit that fails 3 times is reported as permanently
  failed after 3 attempts; every value of the range still has its report, and the reports
  of the sibling units are the ones they would have had if the unit had not failed. The
  script starts every sub-dispatcher of the loop, and whenever it ends its status is 0:
  the status of the job does not tell that a unit failed.
\<close>

theorem exhausted_unit_leaves_siblings_and_status:
  assumes "d \<in> set (dispatch M)" and "v \<in> set (args d)"
    and "\<not> ok v 1" and "\<not> ok v 2" and "\<not> ok v 3"
  shows "(v, PermanentFailure, 3) \<in> set (parallel d ok) \<and>
    map fst (parallel d ok) = args d \<and>
    (\<forall>ok'. (\<forall>u. u \<noteq> v \<longrightarrow> ok' u = ok u) \<longrightarrow>
       filter (\<lambda>r. fst r \<noteq> v) (parallel d ok') = filter (\<lambda>r. fst r \<noteq> v) (parallel d ok)) \<and>
    (\<forall>nodefile evs s. script nodefile evs = Some s \<longrightarrow>
       status s = 0 \<and> jobs s = dispatch (NNODES nodefile))"
proof -
  have "run_unit d (ok v) = (PermanentFailure, 3)"
    using assms(3-5) by (simp add: run_unit_dispatch [OF assms(1)])
  with assms(2) have "(v, PermanentFailure, 3) \<in> set (parallel d ok)"
    by (force simp: parallel_def)
  then show ?thesis
    using map_fst_parallel [of d ok] parallel_siblings [of v _ ok d] script_Some
    by blast
qed

theorem exhausted_unit_leaves_siblings_and_status_witness:
  "launch 0 \<in> set (dispatch 2) \<and> 5 \<in> set (args (launch 0)) \<and>
   (5, PermanentFailure, 3) \<in> set (parallel (launch 0) (\<lambda>v k. v \<noteq> 5)) \<and>
   map fst (parallel (launch 0) (\<lambda>v k. v \<noteq> 5)) = args (launch 0) \<and>
   filter (\<lambda>r. fst r \<noteq> 5) (parallel (launch 0) (\<lambda>v k. True)) =
     filter (\<lambda>r. fst r \<noteq> 5) (parallel (launch 0) (\<lambda>v k. v \<noteq> 5))"
proof -
  have h1: "launch 0 \<in> set (dispatch 2)"
    by (simp add: launch_in_dispatch)
  have h2: "5 \<in> set (args (launch 0))"
    by (simp add: args_launch_0 del: upto_rec_numeral)
  have h3: "\<not> (5::int) \<noteq> 5"
    by simp
  note t = exhausted_unit_leaves_siblings_and_status
    [of "launch 0" 2 5 "\<lambda>(v::int) (k::nat). v \<noteq> 5", OF h1 h2 h3 h3 h3]
  note t1 = t [THEN conjunct1]
  note t2 = t [THEN conjunct2, THEN conjunct1]
  note t3 = t [THEN conjunct2, THEN conjunct2, THEN conjunct1, THEN spec, of "\<lambda>v k. True"]
  have "\<forall>u. u \<noteq> 5 \<longrightarrow> (\<lambda>v k. True) u = (\<lambda>(v::int) (k::nat). v \<noteq> 5) u"
    by simp
  with t3 have "filter (\<lambda>r. fst r \<noteq> 5) (parallel (launch 0) (\<lambda>v k. True)) =
        filter (\<lambda>r. fst r \<noteq> 5) (parallel (launch 0) (\<lambda>v k. v \<noteq> 5))"
    by (rule mp)
  with t1 t2 h1 h2 show ?thesis
    by (intro conjI)
qed

text \<open>
  C4 as written asks that the exit status of the job reflects the failed unit. With two
  nodes and the unit of value 5 failing all its attempts on node 0, the unit is
  permanently failed, the sub-dispatcher of node 0 ends with status 1, and the status of
  the job is 0.
\<close>

theorem exhausted_unit_job_exit_zero:
  "(5, PermanentFailure, 3) \<in> set (parallel (launch 0) (\<lambda>v k. v \<noteq> 5)) \<and>
   exit_status [''r1'', ''r2''] [(0, 1), (1, 0)] = Some 0"
proof -
  have "run_unit (launch 0) (\<lambda>k. False) = (PermanentFailure, 3)"
    by (simp add: run_unit_def launch_def numeral_3_eq_3)
  moreover have "5 \<in> set (args (launch 0))"
    by (simp add: args_launch_0 del: upto_rec_numeral)
  ultimately have "(5, PermanentFailure, 3) \<in> set (parallel (launch 0) (\<lambda>v k. v \<noteq> 5))"
    by (force simp: parallel_def)
  moreover have "{0..<nat 2} \<subseteq> fst ` set [(0::nat, 1::int), (1, 0)]"
    by auto
  then have "exit_status [''r1'', ''r2''] [(0, 1), (1, 0)] = Some 0"
    by (simp add: exit_status_def script_eq NNODES_2)
  ultimately show ?thesis
    by simp
qed

text \<open>
  C5, as the script has it. The script returns exactly when every sub-dispatcher it
  started has ended (it stays blocked in \<open>wait\<close> while one of them has not); when it
  returns, its status is 0 whatever the statuses of the children were, also that of a
  child that could not be started; and its job table is the full list of
  sub-dispatchers of the loop, none taken out because of what another one did.
\<close>

theorem wait_joins_all_exit_zero:
  "(script nodefile evs \<noteq> None \<longleftrightarrow>
      (\<forall>j < length (dispatch (NNODES nodefile)). j \<in> fst ` set evs)) \<and>
   (\<forall>rest. wait [0..<length (dispatch (NNODES nodefile))] evs = Some rest \<longrightarrow>
      (\<exists>pre. evs = pre @ rest \<and>
         (\<forall>j < length (dispatch (NNODES nodefile)). j \<in> fst ` set pre))) \<and>
   (\<forall>s. script nodefile evs = Some s \<longrightarrow>
      status s = 0 \<and> jobs s = dispatch (NNODES nodefile)) \<and>
   (exit_status nodefile evs = None \<or> exit_status nodefile evs = Some 0)"
proof -
  have "\<forall>rest. wait [0..<length (dispatch (NNODES nodefile))] evs = Some rest \<longrightarrow>
      (\<exists>pre. evs = pre @ rest \<and>
         (\<forall>j < length (dispatch (NNODES nodefile)). j \<in> fst ` set pre))"
  proof (intro allI impI)
    fix rest
    assume "wait [0..<length (dispatch (NNODES nodefile))] evs = Some rest"
    from wait_prefix [OF this] obtain pre
      where "evs = pre @ rest" "set [0..<length (dispatch (NNODES nodefile))] \<subseteq> fst ` set pre"
      by blast
    then have "evs = pre @ rest \<and>
        (\<forall>j < length (dispatch (NNODES nodefile)). j \<in> fst ` set pre)"
      by auto
    then show "\<exists>pre. evs = pre @ rest \<and>
        (\<forall>j < length (dispatch (NNODES nodefile)). j \<in> fst ` set pre)"
      by blast
  qed
  moreover
  have "script nodefile evs \<noteq> None \<longleftrightarrow>
      (\<forall>j < length (dispatch (NNODES nodefile)). j \<in> fst ` set evs)"
    by (auto simp: script_eq length_dispatch)
  moreover have "\<forall>s. script nodefile evs = Some s \<longrightarrow>
      status s = 0 \<and> jobs s = dispatch (NNODES nodefile)"
    using script_Some by blast
  moreover have "exit_status nodefile evs = None \<or> exit_status nodefile evs = Some 0"
    by (simp add: exit_status_def script_eq)
  ultimately show ?thesis by blast
qed

theorem wait_joins_all_exit_zero_witness:
  "script [''r1'', ''r2''] [(1, 0), (0, 127)] = Some \<lparr>jobs = dispatch 2, status = 0\<rparr> \<and>
   script [''r1'', ''r2''] [(1, 0)] = None"
proof -
  note t1 = wait_joins_all_exit_zero [of "[''r1'', ''r2'']" "[(1, 0), (0, 127)]"]
  note t2 = wait_joins_all_exit_zero [of "[''r1'', ''r2'']" "[(1, 0)]"]
  have "\<forall>j < length (dispatch (NNODES [''r1'', ''r2''])). j \<in> fst ` set [(1::nat, 0::int), (0, 127)]"
    by (auto simp: NNODES_2 length_dispatch)
  with t1 have a: "script [''r1'', ''r2''] [(1, 0), (0, 127)] \<noteq> None"
    by blast
  have "\<not> (\<forall>j < length (dispatch (NNODES [''r1'', ''r2''])). j \<in> fst ` set [(1::nat, 0::int)])"
    by (auto simp: NNODES_2 length_dispatch intro: exI [of _ 0])
  with t2 have b: "script [''r1'', ''r2''] [(1, 0)] = None"
    by blast
  from a obtain s where s: "script [''r1'', ''r2''] [(1, 0), (0, 127)] = Some s"
    by blast
  with t1 have "status s = 0 \<and> jobs s = dispatch (NNODES [''r1'', ''r2''])"
    by blast
  then have "status s = 0 \<and> jobs s = dispatch 2"
    by (simp add: NNODES_2)
  then have "s = \<lparr>jobs = dispatch 2, status = 0\<rparr>"
    by simp
  with s b show ?thesis
    by simp
qed

text \<open>
  C5 as written asks for a failure status when a sub-dispatcher cannot be started. With
  two nodes, child 0 ending with status 127 (its command could not be started) and child
  1 with status 0, the status of the job is 0.
\<close>

theorem unstarted_subdispatcher_exit_zero:
  "exit_status [''r1'', ''r2''] [(0, 127), (1, 0)] = Some 0"
proof -
  have "{0..<nat 2} \<subseteq> fst ` set [(0::nat, 127::int), (1, 0)]"
    by auto
  then show ?thesis
    by (simp add: exit_status_def script_eq NNODES_2)
qed

text \<open>
  C6, as the script has it. With a node count other than 2 nothing fails at startup:
  as soon as the children have ended the script has run to its end with status 0, having
  started one sub-dispatcher per node, node 0 on 1..32 and every further node on 33..64;
  these ranges are not an exact cover of 1..64, so the job has run on a mis-partitioned
  range.
\<close>

theorem unexpected_node_count_proceeds:
  assumes "NNODES nodefile \<noteq> 2" and "\<forall>j < nat (NNODES nodefile). j \<in> fst ` set evs"
  shows "script nodefile evs = Some \<lparr>jobs = dispatch (NNODES nodefile), status = 0\<rparr> \<and>
    length (dispatch (NNODES nodefile)) = nat (NNODES nodefile) \<and>
    (1 \<le> NNODES nodefile \<longrightarrow>
       partitions (NNODES nodefile) = [1..32] # replicate (nat (NNODES nodefile - 1)) [33..64]) \<and>
    \<not> exact_cover (partitions (NNODES nodefile)) 64"
proof -
  from assms(2) have "{0..<nat (NNODES nodefile)} \<subseteq> fst ` set evs"
    by auto
  then have "script nodefile evs = Some \<lparr>jobs = dispatch (NNODES nodefile), status = 0\<rparr>"
    by (simp add: script_eq)
  moreover have "\<not> exact_cover (partitions (NNODES nodefile)) 64"
    using assms(1) by (rule not_exact_cover_64)
  ultimately show ?thesis
    using partitions_pos [of "NNODES nodefile"] by (simp add: length_dispatch del: upto_rec_numeral)
qed

theorem unexpected_node_count_proceeds_witness:
  "NNODES [''r1''] \<noteq> 2 \<and>
   script [''r1''] [(0, 0)] = Some \<lparr>jobs = dispatch (NNODES [''r1'']), status = 0\<rparr> \<and>
   partitions (NNODES [''r1'']) = [[1..32]] \<and>
   \<not> exact_cover (partitions (NNODES [''r1''])) 64"
proof -
  have n: "NNODES [''r1''] = 1"
    by (simp add: NNODES_def uniq_def wc_l_def)
  then have h1: "NNODES [''r1''] \<noteq> 2" by simp
  have h2: "\<forall>j < nat (NNODES [''r1'']). j \<in> fst ` set [(0::nat, 0::int)]"
    by (simp add: n)
  from unexpected_node_count_proceeds [OF h1 h2] h1 show ?thesis
    by (auto simp: n simp del: upto_rec_numeral)
qed

text \<open>
  C6 as written asks that no partition is computed and the job does not proceed. On three
  nodes the script starts three sub-dispatchers, with the ranges 1..32, 33..64 and 33..64,
  and ends with status 0.
\<close>

theorem three_nodes_job_runs:
  "NNODES [''r1'', ''r2'', ''r3''] = 3 \<and>
   script [''r1'', ''r2'', ''r3''] [(0, 0), (1, 0), (2, 0)] = Some \<lparr>jobs = dispatch 3, status = 0\<rparr> \<and>
   map args (dispatch 3) = [[1..32], [33..64], [33..64]]"
proof -
  have "{0..<nat 3} \<subseteq> fst ` set [(0::nat, 0::int), (1, 0), (2, 0)]"
    by auto
  then have "script [''r1'', ''r2'', ''r3''] [(0, 0), (1, 0), (2, 0)] = Some \<lparr>jobs = dispatch 3, status = 0\<rparr>"
    by (simp add: script_eq NNODES_3)
  moreover have "map args (dispatch 3) = [[1..32], [33..64], [33..64]]"
    using partitions_3 by (simp only: partitions_def)
  ultimately show ?thesis
    by (simp add: NNODES_3 del: upto_rec_numeral)
qed

text \<open>
  C9. If the node count computed from the node file is 1, the loop starts exactly one
  sub-dispatcher, that of node 0, whose range is 1..32: whenever the script ends, its job
  table holds this one child, and no value of 33..64 is handed to a sub-dispatcher.
\<close>

theorem single_node_half_range:
  assumes "NNODES nodefile = 1"
  shows "dispatch (NNODES nodefile) = [launch 0] \<and>
    partitions (NNODES nodefile) = [[1..32]] \<and>
    (\<forall>evs s. script nodefile evs = Some s \<longrightarrow> jobs s = [launch 0]) \<and>
    (\<forall>v \<in> {33..64}. v \<notin> \<Union> (set ` set (partitions (NNODES nodefile))))"
  using script_Some [of nodefile]
  by (simp add: assms dispatch_1 partitions_1 del: upto_rec_numeral)

theorem single_node_half_range_witness:
  "NNODES [''r1'', ''r1''] = 1 \<and> dispatch (NNODES [''r1'', ''r1'']) = [launch 0] \<and>
   partitions (NNODES [''r1'', ''r1'']) = [[1..32]] \<and>
   40 \<notin> \<Union> (set ` set (partitions (NNODES [''r1'', ''r1''])))"
proof -
  have h: "NNODES [''r1'', ''r1''] = 1"
    by (simp add: NNODES_def uniq_def wc_l_def)
  from single_node_half_range [OF h] show ?thesis
    using h by simp
qed

text \<open>
  C10. For every node count \<open>M \<ge> 2\<close> there are \<open>M\<close> ranges, node 0 has the range 1..32 and
  every node of index \<open>i \<ge> 1\<close> the same range 33..64; so every value of 33..64 is handed
  out \<open>M - 1\<close> times, which is at least twice when \<open>M > 2\<close>.
\<close>

theorem hardcoded_ranges_for_many_nodes:
  assumes "2 \<le> M"
  shows "length (partitions M) = nat M \<and> partitions M ! 0 = [1..32] \<and>
    (\<forall>i. 1 \<le> i \<and> i < nat M \<longrightarrow> partitions M ! i = [33..64]) \<and>
    (\<forall>v \<in> {33..64}. count_list (concat (partitions M)) v = nat (M - 1)) \<and>
    (2 < M \<longrightarrow> (\<forall>v \<in> {33..64}. 2 \<le> count_list (concat (partitions M)) v))"
proof -
  from assms have M: "1 \<le> M" by simp
  have "\<forall>v \<in> {33..64}. count_list (concat (partitions M)) v = nat (M - 1)"
    using count_partitions_high [OF M] by blast
  moreover from this have "2 < M \<longrightarrow> (\<forall>v \<in> {33..64}. 2 \<le> count_list (concat (partitions M)) v)"
    by auto
  ultimately show ?thesis
    using nth_partitions_0 [OF M] nth_partitions_rest [of _ M] length_partitions [of M]
    by blast
qed

theorem hardcoded_ranges_for_many_nodes_witness:
  "(2::int) \<le> 3 \<and> length (partitions 3) = 3 \<and> partitions 3 ! 0 = [1..32] \<and>
   partitions 3 ! 1 = [33..64] \<and> partitions 3 ! 2 = [33..64] \<and>
   count_list (concat (partitions 3)) 40 = 2"
proof -
  have h: "(2::int) \<le> 3" by simp
  from hardcoded_ranges_for_many_nodes [OF h] show ?thesis
    by simp
qed

end
